theory Spec2Isabelle
  imports Complex_Main "HOL-Library.Sublist"
begin

section \<open>The music item reader of ly/music/items.py\<close>

text \<open>
  The theory embeds \<^verbatim>\<open>frescobaldi_app/ly/music/items.py\<close>: the item classes and the
  class \<^verbatim>\<open>Reader\<close> with its methods \<^verbatim>\<open>set_language\<close>, \<^verbatim>\<open>consume\<close> and \<^verbatim>\<open>read\<close>.
  The modules \<^verbatim>\<open>ly.lex\<close>, \<^verbatim>\<open>ly.pitch\<close>, \<^verbatim>\<open>ly.document\<close> and \<^verbatim>\<open>node\<close> that the file
  imports are not among the sources. What the reader needs of them is a parameter of
  the model: a token carries its class and base classes, the token source carries
  the nesting depth it reports after every token, and the pitch tables are a record.
\<close>

subsection \<open>Tokens (ly.lex)\<close>

text \<open>
  The lexer classes that items.py names: \<^verbatim>\<open>Space\<close>, \<^verbatim>\<open>BlockCommentStart\<close>, \<^verbatim>\<open>Comment\<close>,
  \<^verbatim>\<open>StringStart\<close> and \<^verbatim>\<open>Character\<close> of \<^verbatim>\<open>ly.lex\<close>, the others of \<^verbatim>\<open>ly.lex.lilypond\<close>.
  Any other class of the lexer is \<open>Lex_Other\<close> with its name.
\<close>

datatype lex_class =
    Lex_MusicItem | Lex_Note | Lex_Rest | Lex_Skip | Lex_Spacer | Lex_Q
  | Lex_Octave | Lex_Accidental | Lex_OctaveCheck | Lex_Duration | Lex_Space
  | Lex_SchemeStart | Lex_BlockCommentStart | Lex_Comment | Lex_StringStart
  | Lex_Character | Lex_Other string

text \<open>
  A token is a Python string (its characters, \<open>chars\<close>) of some lexer class:
  \<open>tclass\<close> is \<^verbatim>\<open>t.__class__\<close>, \<open>bases\<close> are the classes it inherits from.
\<close>

record tok =
  chars :: string
  tclass :: lex_class
  bases :: "lex_class list"

definition isinstance :: "tok \<Rightarrow> lex_class \<Rightarrow> bool" where
  "isinstance t c \<longleftrightarrow> tclass t = c \<or> c \<in> set (bases t)"

text \<open>
  The loop variable \<^verbatim>\<open>t\<close> of \<^verbatim>\<open>read\<close> holds a token or \<^verbatim>\<open>None\<close>. \<^verbatim>\<open>isinstance(None, C)\<close>
  is false; a token is true in a condition when its string is not empty.
\<close>

definition isinstance_opt :: "tok option \<Rightarrow> lex_class \<Rightarrow> bool" where
  "isinstance_opt t c = (case t of None \<Rightarrow> False | Some k \<Rightarrow> isinstance k c)"

definition truthy :: "tok option \<Rightarrow> bool" where
  "truthy t = (case t of None \<Rightarrow> False | Some k \<Rightarrow> chars k \<noteq> [])"

subsection \<open>The token source (ly.document.Source)\<close>

text \<open>
  The source is an iterator that is its own iterator: every \<^verbatim>\<open>for t in self.source\<close>
  pulls from the same stream. \<open>Source toks d\<close> holds the tokens not yet pulled, each
  with the depth \<^verbatim>\<open>self.source.state.depth()\<close> reports once it has been pulled, and the
  depth \<open>d\<close> reported now.
\<close>

datatype source = Source (pending: "(tok \<times> nat) list") (depth: nat)

subsection \<open>Pitches (ly.pitch)\<close>

text \<open>
  \<open>pitchInfo\<close> are the language names that are keys of \<^verbatim>\<open>ly.pitch.pitchInfo\<close>;
  \<open>pitchReader lang s\<close> is \<^verbatim>\<open>ly.pitch.pitchReader(lang)(s)\<close>: the note and alteration,
  or \<open>None\<close> where the Python returns a false value.
\<close>

record ly_pitch =
  pitchInfo :: "string set"
  pitchReader :: "string \<Rightarrow> string \<Rightarrow> (int \<times> rat) option"

text \<open>
  Modelled from the spec: the class \<^verbatim>\<open>ly.pitch.Pitch\<close> is not among the sources. The
  spec gives a Pitch a note name, an accidental, an octave number and an optional
  octave-check value. \<^verbatim>\<open>Pitch(*r)\<close> sets note and alteration; the octave starts at 0,
  the accidental and the octave check are absent until the reader assigns them.
\<close>

record pitch_rec =
  note_step :: int
  alter :: rat
  octave :: int
  accidental :: "tok option"
  octavecheck :: "int option"

definition Pitch :: "int \<Rightarrow> rat \<Rightarrow> pitch_rec" where
  "Pitch n a = \<lparr>note_step = n, alter = a, octave = 0, accidental = None, octavecheck = None\<rparr>"

text \<open>
  Modelled from the spec: the function \<^verbatim>\<open>ly.pitch.octaveToNum\<close> is not among the sources.
  The spec's \<^verbatim>\<open>decodeOctave\<close> over a run of octave marks: every \<^verbatim>\<open>'\<close> raises by one
  octave, every \<^verbatim>\<open>,\<close> lowers by one.
\<close>

definition octaveToNum :: "tok \<Rightarrow> int" where
  "octaveToNum t = int (count_list (chars t) (CHR 0x27)) - int (count_list (chars t) (CHR 0x2C))"

subsection \<open>Items\<close>

datatype item_class =
    Item | Token | Container | Duration | Durable | Chord | Note | Skip | Rest | Q
  | Music | SchemeValue | StringValue | Comment

text \<open>
  An item object: its class and the attributes the reader assigns. \<open>token\<close> and
  \<open>tokens\<close> have the class defaults \<^verbatim>\<open>None\<close> and \<^verbatim>\<open>()\<close>. \<open>duration\<close> is the Duration
  object of a Durable, given by its \<^verbatim>\<open>tokens\<close> list, the one attribute the reader sets
  on it; \<open>None\<close> is the class default. The attribute \<^verbatim>\<open>document\<close> is never assigned by
  the reader and left out.
\<close>

record item =
  kind :: item_class
  token :: "tok option"
  tokens :: "tok list"
  duration :: "tok list option"
  pitch :: "pitch_rec option"
  octave_token :: "tok option"
  accidental_token :: "tok option"
  octavecheck_token :: "tok option"
  value_s :: "string option"

definition new_item :: "item_class \<Rightarrow> item" where
  "new_item c = \<lparr>kind = c, token = None, tokens = [], duration = None, pitch = None,
     octave_token = None, accidental_token = None, octavecheck_token = None,
     value_s = None\<rparr>"

subsection \<open>The Reader\<close>

datatype reader = Reader (source: source) (language: string)

definition Reader_init :: "source \<Rightarrow> reader" where
  "Reader_init s = Reader s ''nederlands''"

text \<open>
  \<^verbatim>\<open>set_language\<close> returns \<^verbatim>\<open>True\<close> after setting the language, and falls off its end
  (returning \<^verbatim>\<open>None\<close>) otherwise.
\<close>

definition set_language :: "ly_pitch \<Rightarrow> reader \<Rightarrow> string \<Rightarrow> bool option \<times> reader" where
  "set_language E r lang =
     (if lang \<in> pitchInfo E then (Some True, Reader (source r) lang) else (None, r))"

text \<open>
  \<^verbatim>\<open>consume\<close>: the depth is read once, at entry; then every token pulled is yielded,
  and the loop breaks when the depth reported after it is below the entry depth.
  The \<^verbatim>\<open>print\<close> statement writes to the standard output only and is left out. The
  generator is run to its end, as \<^verbatim>\<open>tuple(self.consume())\<close> does.
\<close>

function (sequential) consume_loop :: "nat \<Rightarrow> source \<Rightarrow> tok list \<times> source" where
  "consume_loop e (Source [] d) = ([], Source [] d)"
| "consume_loop e (Source ((t, d') # rest) d) =
     (if d' < e then ([t], Source rest d')
      else (case consume_loop e (Source rest d') of (ts, s) \<Rightarrow> (t # ts, s)))"
  by pat_completeness auto

termination consume_loop
  by (relation "measure (\<lambda>(e, s). length (pending s))") auto

definition consume :: "source \<Rightarrow> tok list \<times> source" where
  "consume s = consume_loop (depth s) s"

definition factory :: "item_class \<Rightarrow> tok \<Rightarrow> bool \<Rightarrow> source \<Rightarrow> item \<times> source" where
  "factory c t cons s =
     (let item = (new_item c)\<lparr>token := Some t\<rparr>
      in if cons then (case consume s of (ts, s') \<Rightarrow> (item\<lparr>tokens := ts\<rparr>, s'))
         else (item, s))"

text \<open>
  The loop of lines 161 to 172, after a note name has been resolved. \<open>p\<close> of the source
  is the pitch object held by the item. When the source is exhausted the loop variable
  keeps its last value.
\<close>

definition upd_pitch :: "(pitch_rec \<Rightarrow> pitch_rec) \<Rightarrow> item \<Rightarrow> item" where
  "upd_pitch f i = i\<lparr>pitch := map_option f (pitch i)\<rparr>"

function (sequential) pitch_loop :: "item \<Rightarrow> tok option \<Rightarrow> source \<Rightarrow> item \<times> tok option \<times> source" where
  "pitch_loop i t (Source [] d) = (i, t, Source [] d)"
| "pitch_loop i t (Source ((k, d') # rest) d) =
     (if isinstance k Lex_Octave then
        pitch_loop ((upd_pitch (\<lambda>p. p\<lparr>octave := octaveToNum k\<rparr>) i)\<lparr>octave_token := Some k\<rparr>)
          (Some k) (Source rest d')
      else if isinstance k Lex_Accidental then
        pitch_loop ((upd_pitch (\<lambda>p. p\<lparr>accidental := Some k\<rparr>) i)\<lparr>accidental_token := Some k\<rparr>)
          (Some k) (Source rest d')
      else if isinstance k Lex_OctaveCheck then
        ((upd_pitch (\<lambda>p. p\<lparr>octavecheck := Some (octaveToNum k)\<rparr>) i)\<lparr>octavecheck_token := Some k\<rparr>,
         Some k, Source rest d')
      else if \<not> isinstance k Lex_Space then (i, Some k, Source rest d')
      else pitch_loop i (Some k) (Source rest d'))"
  by pat_completeness auto

termination pitch_loop
  by (relation "measure (\<lambda>(i, t, s). length (pending s))") auto

text \<open>
  Lines 154 to 181: one pass of the \<^verbatim>\<open>while\<close> body up to \<^verbatim>\<open>if item:\<close>, for a token \<open>k\<close>
  that is a MusicItem. The result is the item (or \<^verbatim>\<open>None\<close>), the loop variable and
  the source.
\<close>

definition music_item ::
  "ly_pitch \<Rightarrow> string \<Rightarrow> tok \<Rightarrow> source \<Rightarrow> item option \<times> tok option \<times> source" where
  "music_item E lang k s =
     (if tclass k = Lex_Note then
        (case pitchReader E lang (chars k) of
           None \<Rightarrow> (None, Some k, s)
         | Some (n, a) \<Rightarrow>
             (case pitch_loop ((fst (factory Note k False s))\<lparr>pitch := Some (Pitch n a)\<rparr>) None s of
                (i, t, s') \<Rightarrow> (Some i, t, s')))
      else if tclass k = Lex_Rest then (Some (fst (factory Rest k False s)), None, s)
      else if tclass k \<in> {Lex_Skip, Lex_Spacer} then (Some (fst (factory Skip k False s)), None, s)
      else (Some (fst (factory Q k False s)), None, s))"

text \<open>Lines 184 to 193: the Duration of a Durable item.\<close>

function (sequential) duration_loop :: "tok list \<Rightarrow> tok option \<Rightarrow> source \<Rightarrow> tok list \<times> tok option \<times> source" where
  "duration_loop ds t (Source [] d) = (ds, t, Source [] d)"
| "duration_loop ds t (Source ((k, d') # rest) d) =
     (if isinstance k Lex_Duration then duration_loop (ds @ [k]) (Some k) (Source rest d')
      else if \<not> isinstance k Lex_Space then (ds, Some k, Source rest d')
      else duration_loop ds (Some k) (Source rest d'))"
  by pat_completeness auto

termination duration_loop
  by (relation "measure (\<lambda>(ds, t, s). length (pending s))") auto

definition wait_duration :: "item \<Rightarrow> tok option \<Rightarrow> source \<Rightarrow> item \<times> tok option \<times> source" where
  "wait_duration i t s =
     (if \<not> truthy t \<or> isinstance_opt t Lex_Duration then
        (case duration_loop (if truthy t then [the t] else []) t s of
           (ds, t', s') \<Rightarrow> (i\<lparr>duration := Some ds\<rparr>, t', s'))
      else (i\<lparr>duration := Some []\<rparr>, t, s))"

text \<open>
  The \<^verbatim>\<open>while isinstance(t, MusicItem)\<close> loop of lines 153 to 194. Nothing bounds the
  number of its passes, so the model counts them down from a fuel \<open>n\<close>: the result is
  the items yielded and, when the loop was left, the loop variable and the source;
  \<open>None\<close> says that the loop was still running when the fuel ran out. A new item
  object is true in \<^verbatim>\<open>if item:\<close> (the nodes of the \<^verbatim>\<open>node\<close> module are always true).
\<close>

fun read_while ::
  "ly_pitch \<Rightarrow> nat \<Rightarrow> string \<Rightarrow> tok option \<Rightarrow> source \<Rightarrow> item list \<times> (tok option \<times> source) option" where
  "read_while E 0 lang t s =
     (if isinstance_opt t Lex_MusicItem then ([], None) else ([], Some (t, s)))"
| "read_while E (Suc n) lang t s =
     (if isinstance_opt t Lex_MusicItem then
        (case music_item E lang (the t) s of
           (None, t1, s1) \<Rightarrow> read_while E n lang t1 s1
         | (Some i, t1, s1) \<Rightarrow>
             (case wait_duration i t1 s1 of
                (i', t2, s2) \<Rightarrow>
                  (case read_while E n lang t2 s2 of (its, r) \<Rightarrow> (i' # its, r))))
      else ([], Some (t, s)))"

text \<open>
  The element of the generator expression of lines 204 and 205:
  \<^verbatim>\<open>t[1:] if isinstance(t, ly.lex.Character) and t.startswith('\\') else t\<close>.
\<close>

definition unescape :: "tok \<Rightarrow> string" where
  "unescape t =
     (if isinstance t Lex_Character \<and> take 1 (chars t) = [CHR 0x5C] then drop 1 (chars t)
      else chars t)"

definition string_value :: "tok list \<Rightarrow> string" where
  "string_value ts = concat (map unescape (butlast ts))"

text \<open>Lines 195 to 206: the items made from the token the \<^verbatim>\<open>while\<close> loop left.\<close>

definition dispatch :: "tok option \<Rightarrow> source \<Rightarrow> item list \<times> source" where
  "dispatch t s =
     (if isinstance_opt t Lex_SchemeStart then
        (case factory SchemeValue (the t) True s of (i, s') \<Rightarrow> ([i], s'))
      else if isinstance_opt t Lex_BlockCommentStart then
        (case factory Comment (the t) True s of (i, s') \<Rightarrow> ([i], s'))
      else if isinstance_opt t Lex_Comment then
        (case factory Comment (the t) False s of (i, s') \<Rightarrow> ([i], s'))
      else if isinstance_opt t Lex_StringStart then
        (case factory StringValue (the t) True s of
           (i, s') \<Rightarrow> ([i\<lparr>value_s := Some (string_value (tokens i))\<rparr>], s'))
      else ([], s))"

text \<open>
  \<^verbatim>\<open>read()\<close>, called without a source of its own: the outer loop pulls from
  \<^verbatim>\<open>self.source\<close> as the inner loops do. The result is the list of the items yielded
  and how the generator ended: \<open>StopIteration\<close> when the outer loop found the source
  exhausted, \<open>OutOfFuel\<close> when the fuel ran out first. A generator has no other way
  to end but an exception, and \<^verbatim>\<open>read\<close> raises none. \<^verbatim>\<open>read\<close> never assigns the
  language, so it is the same in every pass.
\<close>

datatype outcome = StopIteration | OutOfFuel

fun read :: "ly_pitch \<Rightarrow> nat \<Rightarrow> reader \<Rightarrow> item list \<times> outcome" where
  "read E n (Reader (Source [] d) lang) = ([], StopIteration)"
| "read E 0 (Reader (Source (x # xs) d) lang) = ([], OutOfFuel)"
| "read E (Suc n) (Reader (Source ((t, d') # rest) d) lang) =
     (case read_while E n lang (Some t) (Source rest d') of
        (its, None) \<Rightarrow> (its, OutOfFuel)
      | (its, Some (t', s)) \<Rightarrow>
          (case dispatch t' s of
             (its2, s2) \<Rightarrow>
               (case read E n (Reader s2 lang) of
                  (its3, out) \<Rightarrow> (its @ its2 @ its3, out))))"

subsection \<open>What an item holds of the source\<close>

text \<open>
  \<open>stream t s\<close> are the tokens \<^verbatim>\<open>read\<close> still has to look at: the loop variable, when it
  holds a token, and the tokens left in the source. \<open>item_inv E lang ts i\<close> says what
  every item yielded from the tokens \<open>ts\<close> satisfies.
\<close>

definition stream :: "tok option \<Rightarrow> source \<Rightarrow> tok list" where
  "stream t s = (case t of None \<Rightarrow> [] | Some k \<Rightarrow> [k]) @ map fst (pending s)"

definition item_inv :: "ly_pitch \<Rightarrow> string \<Rightarrow> tok list \<Rightarrow> item \<Rightarrow> bool" where
  "item_inv E lang ts i \<longleftrightarrow>
     (\<exists>k. token i = Some k \<and> sublist (k # tokens i) ts \<and>
          (kind i = Note \<longrightarrow> pitchReader E lang (chars k) \<noteq> None)) \<and>
     kind i \<in> {Note, Rest, Skip, Q, SchemeValue, Comment, StringValue} \<and>
     (kind i \<in> {Note, Rest, Skip, Q} \<longrightarrow>
        tokens i = [] \<and>
        (\<exists>ds. duration i = Some ds \<and> (\<forall>t \<in> set ds. isinstance t Lex_Duration \<and> t \<in> set ts)))"

text \<open>
  The run of a nested construct, as the spec words depth-tracked consumption: the
  tokens of \<open>toks\<close> up to and including the first one after which the depth is below
  the entry depth \<open>e\<close>, or all of them when there is none. \<open>pstream t s\<close> is \<open>stream t s\<close>
  with the depths: the loop variable, when it holds a token, is the token pulled last,
  and the depth of the source is the depth reported after it. \<open>consumes i k\<close> says that
  the item \<open>i\<close> with the defining token \<open>k\<close> was made with \<^verbatim>\<open>consume=True\<close>, and
  \<open>run_inv ts i\<close> says where in the tokens \<open>ts\<close> the item \<open>i\<close> lies.
\<close>

definition nested_run :: "nat \<Rightarrow> (tok \<times> nat) list \<Rightarrow> (tok \<times> nat) list" where
  "nested_run e toks =
     takeWhile (\<lambda>(t, d). e \<le> d) toks @ take 1 (dropWhile (\<lambda>(t, d). e \<le> d) toks)"

definition pstream :: "tok option \<Rightarrow> source \<Rightarrow> (tok \<times> nat) list" where
  "pstream t s = (case t of None \<Rightarrow> [] | Some k \<Rightarrow> [(k, depth s)]) @ pending s"

definition consumes :: "item \<Rightarrow> tok \<Rightarrow> bool" where
  "consumes i k \<longleftrightarrow>
     kind i \<in> {SchemeValue, StringValue} \<or> (kind i = Comment \<and> isinstance k Lex_BlockCommentStart)"

definition run_inv :: "(tok \<times> nat) list \<Rightarrow> item \<Rightarrow> bool" where
  "run_inv ts i \<longleftrightarrow>
     (\<exists>k e pre rest. token i = Some k \<and> ts = pre @ (k, e) # rest \<and>
        tokens i = (if consumes i k then map fst (nested_run e rest) else []))"

text \<open>
  A token at which the \<^verbatim>\<open>while\<close> loop of \<^verbatim>\<open>read\<close> makes no progress: a MusicItem of the
  class Note whose spelling the pitch reader of the language does not know.
\<close>

definition unresolved :: "ly_pitch \<Rightarrow> string \<Rightarrow> tok \<Rightarrow> bool" where
  "unresolved E lang k \<longleftrightarrow>
     isinstance k Lex_MusicItem \<and> tclass k = Lex_Note \<and> pitchReader E lang (chars k) = None"

subsection \<open>Example tokens and tables\<close>

text \<open>
  Tokens as the LilyPond lexer classifies them: a note or rest is a MusicItem, a length
  or a dot is a Duration, the start of a quoted string is a StringStart, an escaped
  quote is a Character. The example table knows two languages and a few names.
\<close>

definition mk_tok :: "lex_class \<Rightarrow> lex_class list \<Rightarrow> string \<Rightarrow> tok" where
  "mk_tok c bs s = \<lparr>chars = s, tclass = c, bases = bs\<rparr>"

definition tk_note :: "string \<Rightarrow> tok" where
  "tk_note = mk_tok Lex_Note [Lex_MusicItem]"

definition tk_rest :: "string \<Rightarrow> tok" where
  "tk_rest = mk_tok Lex_Rest [Lex_MusicItem]"

definition tk_octave :: "string \<Rightarrow> tok" where
  "tk_octave = mk_tok Lex_Octave []"

definition tk_octavecheck :: "string \<Rightarrow> tok" where
  "tk_octavecheck = mk_tok Lex_OctaveCheck []"

definition tk_length :: "string \<Rightarrow> tok" where
  "tk_length = mk_tok (Lex_Other ''Length'') [Lex_Duration]"

definition tk_space :: "string \<Rightarrow> tok" where
  "tk_space = mk_tok Lex_Space []"

definition tk_scheme_start :: "string \<Rightarrow> tok" where
  "tk_scheme_start = mk_tok Lex_SchemeStart []"

definition tk_scheme :: "string \<Rightarrow> tok" where
  "tk_scheme = mk_tok (Lex_Other ''Scheme'') []"

definition tk_string_start :: "string \<Rightarrow> tok" where
  "tk_string_start = mk_tok (Lex_Other ''StringQuotedStart'') [Lex_Other ''String'', Lex_StringStart]"

definition tk_string :: "string \<Rightarrow> tok" where
  "tk_string = mk_tok (Lex_Other ''String'') []"

definition tk_escape :: "string \<Rightarrow> tok" where
  "tk_escape = mk_tok (Lex_Other ''StringQuoteEscape'') [Lex_Character]"

definition tk_string_end :: "string \<Rightarrow> tok" where
  "tk_string_end = mk_tok (Lex_Other ''StringQuotedEnd'') [Lex_Other ''String'']"

definition tk_block_comment_start :: "string \<Rightarrow> tok" where
  "tk_block_comment_start = mk_tok Lex_BlockCommentStart [Lex_Other ''BlockComment'', Lex_Comment]"

definition tk_block_comment :: "string \<Rightarrow> tok" where
  "tk_block_comment = mk_tok (Lex_Other ''BlockComment'') [Lex_Comment]"

definition tk_block_comment_space :: "string \<Rightarrow> tok" where
  "tk_block_comment_space =
     mk_tok (Lex_Other ''BlockCommentSpace'') [Lex_Other ''BlockComment'', Lex_Comment, Lex_Space]"

definition tk_block_comment_end :: "string \<Rightarrow> tok" where
  "tk_block_comment_end = mk_tok (Lex_Other ''BlockCommentEnd'') [Lex_Other ''BlockComment'', Lex_Comment]"

definition tk_line_comment :: "string \<Rightarrow> tok" where
  "tk_line_comment = mk_tok (Lex_Other ''LineComment'') [Lex_Comment]"

definition tk_name :: "string \<Rightarrow> tok" where
  "tk_name = mk_tok (Lex_Other ''Name'') []"

definition example_pitch :: ly_pitch where
  "example_pitch =
     \<lparr>pitchInfo = {''nederlands'', ''english''},
      pitchReader = (\<lambda>lang s.
        if lang = ''nederlands'' then map_of [(''c'', (0, 0)), (''d'', (1, 0)), (''cis'', (0, 1 / 2))] s
        else if lang = ''english'' then map_of [(''c'', (0, 0)), (''cs'', (0, 1 / 2))] s
        else None)\<rparr>"

section \<open>Properties\<close>

lemmas tok_defs = mk_tok_def tk_note_def tk_rest_def tk_octave_def tk_octavecheck_def
  tk_length_def tk_space_def tk_scheme_start_def tk_scheme_def tk_string_start_def
  tk_string_def tk_escape_def tk_string_end_def tk_name_def tk_block_comment_start_def
  tk_block_comment_def tk_block_comment_space_def tk_block_comment_end_def tk_line_comment_def

subsection \<open>Depth-tracked consumption\<close>

lemma consume_loop_all:
  "\<forall>(t, d) \<in> set toks. e \<le> d \<Longrightarrow>
   consume_loop e (Source toks d0) = (map fst toks, Source [] (last (d0 # map snd toks)))"
  by (induction toks arbitrary: d0) auto

lemma consume_loop_stops:
  "\<forall>(t, d) \<in> set body. e \<le> d \<Longrightarrow> dl < e \<Longrightarrow>
   consume_loop e (Source (body @ (l, dl) # rest) d0) = (map fst body @ [l], Source rest dl)"
  by (induction body arbitrary: d0) auto

subsection \<open>The loop over music items\<close>

lemma read_while_unresolved:
  "isinstance k Lex_MusicItem \<Longrightarrow> tclass k = Lex_Note \<Longrightarrow>
   pitchReader E lang (chars k) = None \<Longrightarrow>
   read_while E n lang (Some k) s = ([], None)"
  by (induction n) (simp_all add: isinstance_opt_def music_item_def)

lemma read_while_not_music:
  "\<not> isinstance_opt t Lex_MusicItem \<Longrightarrow> read_while E n lang t s = ([], Some (t, s))"
  by (cases n) simp_all

lemma duration_loop_tokens:
  "fst (duration_loop ds t (Source rest d)) =
     ds @ filter (\<lambda>t. isinstance t Lex_Duration)
            (map fst (takeWhile (\<lambda>(t, d). isinstance t Lex_Duration \<or> isinstance t Lex_Space) rest))"
  by (induction rest arbitrary: ds t d) auto

lemma read_unresolved_hangs:
  "isinstance k Lex_MusicItem \<Longrightarrow> tclass k = Lex_Note \<Longrightarrow>
   pitchReader E lang (chars k) = None \<Longrightarrow>
   read E (Suc n) (Reader (Source ((k, d') # rest) d) lang) = ([], OutOfFuel)"
  by (simp add: read_while_unresolved)

subsection \<open>Every item yielded\<close>

lemma sublist_suffix_trans: "sublist xs ys \<Longrightarrow> suffix ys zs \<Longrightarrow> sublist xs zs"
  by (metis sublist_order.order.trans suffix_imp_sublist)

lemma item_inv_mono: "item_inv E lang ts' i \<Longrightarrow> suffix ts' ts \<Longrightarrow> item_inv E lang ts i"
proof -
  assume inv: "item_inv E lang ts' i" and suf: "suffix ts' ts"
  have sub: "\<And>xs. sublist xs ts' \<Longrightarrow> sublist xs ts"
    using suf by (rule sublist_suffix_trans [rotated])
  have mem: "\<And>x. x \<in> set ts' \<Longrightarrow> x \<in> set ts"
    using set_mono_suffix [OF suf] by auto
  show ?thesis
    using inv unfolding item_inv_def by (auto intro: sub mem)
qed

lemma consume_loop_split:
  "consume_loop e (Source toks d) = (ts, s') \<Longrightarrow> map fst toks = ts @ map fst (pending s')"
  by (induction toks arbitrary: d ts s') (auto split: if_splits prod.splits)

lemma pitch_loop_inv:
  "pitch_loop i t (Source toks d) = (i', t', s') \<Longrightarrow>
   kind i' = kind i \<and> token i' = token i \<and> tokens i' = tokens i \<and> duration i' = duration i \<and>
   suffix (stream t' s') (stream t (Source toks d))"
proof (induction toks arbitrary: i t d)
  case Nil
  then show ?case by (auto simp: stream_def)
next
  case (Cons a toks)
  obtain k d' where a: "a = (k, d')" by (cases a)
  have base: "suffix (stream (Some k) (Source toks d')) (stream t (Source (a # toks) d))"
    by (cases t) (auto simp: stream_def a suffix_def)
  show ?case
    using Cons.prems Cons.IH base
    by (fastforce simp: a upd_pitch_def split: if_splits dest: suffix_order.trans)
qed


lemma duration_loop_inv:
  "duration_loop ds t (Source toks d) = (ds', t', s') \<Longrightarrow>
   suffix (stream t' s') (stream t (Source toks d)) \<and>
   (\<forall>x \<in> set ds'. x \<in> set ds \<or> (isinstance x Lex_Duration \<and> x \<in> fst ` set toks))"
proof (induction toks arbitrary: ds t d)
  case Nil
  then show ?case by (auto simp: stream_def)
next
  case (Cons a toks)
  obtain k d' where a: "a = (k, d')" by (cases a)
  have base: "suffix (stream (Some k) (Source toks d')) (stream t (Source (a # toks) d))"
    by (cases t) (auto simp: stream_def a suffix_def)
  show ?case
    using Cons.prems Cons.IH base
    by (fastforce simp: a split: if_splits dest: suffix_order.trans)
qed

lemma wait_duration_inv:
  assumes "wait_duration i t s = (i', t', s')"
  shows "kind i' = kind i \<and> token i' = token i \<and> tokens i' = tokens i \<and>
     suffix (stream t' s') (stream t s) \<and>
     (\<exists>ds. duration i' = Some ds \<and>
        (\<forall>x \<in> set ds. isinstance x Lex_Duration \<and> x \<in> set (stream t s)))"
proof (cases "\<not> truthy t \<or> isinstance_opt t Lex_Duration")
  case False
  with assms show ?thesis by (auto simp: wait_duration_def)
next
  case True
  obtain toks d where s: "s = Source toks d" by (cases s)
  obtain ds where dl: "duration_loop (if truthy t then [the t] else []) t (Source toks d) = (ds, t', s')"
    and i': "i' = i\<lparr>duration := Some ds\<rparr>"
    using assms True by (auto simp: wait_duration_def s split: prod.splits)
  have first: "\<forall>x \<in> set (if truthy t then [the t] else []).
      isinstance x Lex_Duration \<and> x \<in> set (stream t s)"
    using True by (cases t) (auto simp: truthy_def isinstance_opt_def stream_def)
  have "\<forall>x \<in> set ds. isinstance x Lex_Duration \<and> x \<in> set (stream t s)"
    using duration_loop_inv [OF dl] first by (auto simp: stream_def s)
  then show ?thesis
    using duration_loop_inv [OF dl] by (simp add: i' s)
qed

lemma music_item_inv:
  assumes "music_item E lang k s = (io, t', s')"
  shows "suffix (stream t' s') (stream (Some k) s) \<and>
     (\<forall>i. io = Some i \<longrightarrow>
        kind i \<in> {Note, Rest, Skip, Q} \<and> token i = Some k \<and> tokens i = [] \<and>
        (kind i = Note \<longrightarrow> pitchReader E lang (chars k) \<noteq> None))"
proof -
  obtain toks d where s: "s = Source toks d" by (cases s)
  have none: "suffix (stream None s) (stream (Some k) s)"
    by (simp add: stream_def suffix_def)
  show ?thesis
  proof (cases "tclass k = Lex_Note")
    case False
    with assms none show ?thesis
      by (auto simp: music_item_def factory_def new_item_def split: if_splits)
  next
    case True
    show ?thesis
    proof (cases "pitchReader E lang (chars k)")
      case None
      with assms True show ?thesis by (auto simp: music_item_def)
    next
      case (Some na)
      obtain n a where na: "na = (n, a)" by (cases na)
      obtain i where pl: "pitch_loop ((fst (factory Note k False s))\<lparr>pitch := Some (Pitch n a)\<rparr>) None
          (Source toks d) = (i, t', s')" and io: "io = Some i"
        using assms True Some by (auto simp: music_item_def na s split: prod.splits)
      have "suffix (stream t' s') (stream None s)"
        using pitch_loop_inv [OF pl] by (simp add: s)
      with none have "suffix (stream t' s') (stream (Some k) s)"
        by (rule suffix_order.trans [rotated])
      then show ?thesis
        using pitch_loop_inv [OF pl] Some
        by (simp add: io factory_def new_item_def)
    qed
  qed
qed


lemma read_while_inv:
  "read_while E n lang t s = (its, r) \<Longrightarrow>
   (\<forall>i \<in> set its. item_inv E lang (stream t s) i) \<and>
   (\<forall>t' s'. r = Some (t', s') \<longrightarrow> suffix (stream t' s') (stream t s))"
proof (induction n arbitrary: t s its r)
  case 0
  then show ?case by (auto split: if_splits)
next
  case (Suc n)
  show ?case
  proof (cases "isinstance_opt t Lex_MusicItem")
    case False
    with Suc.prems show ?thesis by auto
  next
    case True
    then obtain k where t: "t = Some k" by (cases t) (auto simp: isinstance_opt_def)
    obtain io t1 s1 where mi: "music_item E lang k s = (io, t1, s1)"
      by (cases "music_item E lang k s") auto
    note m = music_item_inv [OF mi]
    then have suf1: "suffix (stream t1 s1) (stream t s)" by (simp add: t)
    show ?thesis
    proof (cases io)
      case None
      then have "read_while E n lang t1 s1 = (its, r)"
        using Suc.prems True mi by (simp add: t)
      from Suc.IH [OF this] suf1 show ?thesis
        by (auto intro: item_inv_mono dest: suffix_order.trans)
    next
      case (Some i)
      obtain i' t2 s2 where wd: "wait_duration i t1 s1 = (i', t2, s2)"
        by (cases "wait_duration i t1 s1") auto
      obtain its' where rw: "read_while E n lang t2 s2 = (its', r)" and its: "its = i' # its'"
        using Suc.prems True mi Some wd by (auto simp: t split: prod.splits)
      note w = wait_duration_inv [OF wd]
      then have suf2: "suffix (stream t2 s2) (stream t s)"
        using suf1 by (auto dest: suffix_order.trans)
      have "sublist [k] (stream t s)"
        by (simp add: t stream_def sublist_Cons_right)
      moreover have "\<And>x. x \<in> set (stream t1 s1) \<Longrightarrow> x \<in> set (stream t s)"
        using set_mono_suffix [OF suf1] by auto
      ultimately have "item_inv E lang (stream t s) i'"
        using m w Some unfolding item_inv_def by auto
      with Suc.IH [OF rw] suf2 show ?thesis
        by (auto simp: its intro: item_inv_mono dest: suffix_order.trans)
    qed
  qed
qed

lemma dispatch_inv:
  assumes "dispatch t s = (its, s')"
  shows "(\<forall>i \<in> set its. item_inv E lang (stream t s) i) \<and>
     suffix (map fst (pending s')) (stream t s)"
proof (cases t)
  case None
  with assms show ?thesis
    by (auto simp: dispatch_def isinstance_opt_def stream_def)
next
  case (Some k)
  obtain toks d where s: "s = Source toks d" by (cases s)
  obtain ts sc where c: "consume s = (ts, sc)" by (cases "consume s") auto
  then have split: "map fst toks = ts @ map fst (pending sc)"
    using consume_loop_split [of "depth s" toks d ts sc] by (simp add: consume_def s)
  have pre: "sublist (k # ts) (stream t s)"
    by (simp add: Some stream_def s split prefix_imp_sublist)
  have one: "sublist [k] (stream t s)"
    by (simp add: Some stream_def sublist_Cons_right)
  have suf: "suffix (map fst (pending sc)) (stream t s)"
    by (simp add: Some stream_def s split suffix_def)
  have suf0: "suffix (map fst (pending s)) (stream t s)"
    by (simp add: Some stream_def suffix_def)
  show ?thesis
    using assms pre one suf suf0 c
    by (auto simp: dispatch_def isinstance_opt_def Some factory_def new_item_def item_inv_def
          split: if_splits)
qed

lemma read_inv:
  "i \<in> set (fst (read E n (Reader (Source toks d) lang))) \<Longrightarrow> item_inv E lang (map fst toks) i"
proof (induction n arbitrary: toks d i)
  case 0
  then show ?case by (cases toks) auto
next
  case (Suc n)
  show ?case
  proof (cases toks)
    case Nil
    with Suc.prems show ?thesis by simp
  next
    case (Cons a rest)
    obtain k d' where a: "a = (k, d')" by (cases a)
    obtain its r where rw: "read_while E n lang (Some k) (Source rest d') = (its, r)"
      by (cases "read_while E n lang (Some k) (Source rest d')") auto
    have st: "stream (Some k) (Source rest d') = map fst toks"
      by (simp add: stream_def Cons a)
    note w = read_while_inv [OF rw, unfolded st]
    show ?thesis
    proof (cases r)
      case None
      with Suc.prems rw w show ?thesis by (auto simp: Cons a)
    next
      case (Some ts)
      obtain t' s where ts: "ts = (t', s)" by (cases ts)
      obtain its2 s2 where dp: "dispatch t' s = (its2, s2)" by (cases "dispatch t' s") auto
      obtain toks2 d2 where s2: "s2 = Source toks2 d2" by (cases s2)
      have suf1: "suffix (stream t' s) (map fst toks)"
        using w by (simp add: Some ts)
      note dv = dispatch_inv [OF dp, of E lang]
      have suf2: "suffix (map fst toks2) (map fst toks)"
        using dv suf1 by (auto simp: s2 dest: suffix_order.trans)
      have "i \<in> set its \<or> i \<in> set its2 \<or> i \<in> set (fst (read E n (Reader (Source toks2 d2) lang)))"
        using Suc.prems rw dp by (auto simp: Cons a Some ts s2 split: prod.splits)
      then show ?thesis
        using w dv suf1 suf2 Suc.IH [of i toks2 d2]
        by (auto intro: item_inv_mono)
    qed
  qed
qed

lemma consume_loop_run:
  "consume_loop e (Source toks d) = (ts, s') \<Longrightarrow>
   ts = map fst (nested_run e toks) \<and> suffix (pending s') toks"
proof (induction toks arbitrary: d ts s')
  case Nil
  then show ?case by (auto simp: nested_run_def)
next
  case (Cons a toks)
  obtain k d' where a: "a = (k, d')" by (cases a)
  show ?case
  proof (cases "d' < e")
    case True
    with Cons.prems show ?thesis
      by (auto simp: a nested_run_def suffix_def)
  next
    case False
    obtain ts0 s0 where c: "consume_loop e (Source toks d') = (ts0, s0)"
      by (cases "consume_loop e (Source toks d')") auto
    from Cons.IH [OF c] Cons.prems False c show ?thesis
      by (auto simp: a nested_run_def suffix_ConsI)
  qed
qed

lemma run_inv_mono: "run_inv ts' i \<Longrightarrow> suffix ts' ts \<Longrightarrow> run_inv ts i"
  unfolding run_inv_def suffix_def by (metis append_assoc)

lemma pitch_loop_pinv:
  "pitch_loop i t (Source toks d) = (i', t', s') \<Longrightarrow>
   suffix (pstream t' s') (pstream t (Source toks d))"
proof (induction toks arbitrary: i t d)
  case Nil
  then show ?case by (auto simp: pstream_def)
next
  case (Cons a toks)
  obtain k d' where a: "a = (k, d')" by (cases a)
  have base: "suffix (pstream (Some k) (Source toks d')) (pstream t (Source (a # toks) d))"
    by (cases t) (auto simp: pstream_def a suffix_def)
  show ?case
    using Cons.prems Cons.IH base
    by (fastforce simp: a split: if_splits dest: suffix_order.trans)
qed

lemma duration_loop_pinv:
  "duration_loop ds t (Source toks d) = (ds', t', s') \<Longrightarrow>
   suffix (pstream t' s') (pstream t (Source toks d))"
proof (induction toks arbitrary: ds t d)
  case Nil
  then show ?case by (auto simp: pstream_def)
next
  case (Cons a toks)
  obtain k d' where a: "a = (k, d')" by (cases a)
  have base: "suffix (pstream (Some k) (Source toks d')) (pstream t (Source (a # toks) d))"
    by (cases t) (auto simp: pstream_def a suffix_def)
  show ?case
    using Cons.prems Cons.IH base
    by (fastforce simp: a split: if_splits dest: suffix_order.trans)
qed

lemma wait_duration_pinv:
  assumes "wait_duration i t s = (i', t', s')"
  shows "suffix (pstream t' s') (pstream t s)"
proof -
  obtain toks d where s: "s = Source toks d" by (cases s)
  show ?thesis
    using assms duration_loop_pinv [of _ t toks d _ t' s']
    by (auto simp: wait_duration_def s split: if_splits prod.splits)
qed

lemma music_item_pinv:
  assumes "music_item E lang k s = (io, t', s')"
  shows "suffix (pstream t' s') (pstream (Some k) s)"
proof -
  obtain toks d where s: "s = Source toks d" by (cases s)
  have none: "suffix (pstream None s) (pstream (Some k) s)"
    by (simp add: pstream_def suffix_def)
  have "t' = Some k \<and> s' = s \<or> suffix (pstream t' s') (pstream None s)"
    using assms pitch_loop_pinv [of _ None toks d _ t' s']
    by (auto simp: music_item_def s split: if_splits option.splits prod.splits)
  with none show ?thesis
    by (auto dest: suffix_order.trans)
qed


lemma run_inv_durable:
  "kind i \<in> {Note, Rest, Skip, Q} \<Longrightarrow> token i = Some k \<Longrightarrow> tokens i = [] \<Longrightarrow>
   run_inv (pstream (Some k) s) i"
  unfolding run_inv_def pstream_def consumes_def
  by (intro exI [of _ k] exI [of _ "depth s"] exI [of _ "[]"] exI [of _ "pending s"]) auto

lemma read_while_pinv:
  "read_while E n lang t s = (its, r) \<Longrightarrow>
   (\<forall>i \<in> set its. run_inv (pstream t s) i) \<and>
   (\<forall>t' s'. r = Some (t', s') \<longrightarrow> suffix (pstream t' s') (pstream t s))"
proof (induction n arbitrary: t s its r)
  case 0
  then show ?case by (auto split: if_splits)
next
  case (Suc n)
  show ?case
  proof (cases "isinstance_opt t Lex_MusicItem")
    case False
    with Suc.prems show ?thesis by auto
  next
    case True
    then obtain k where t: "t = Some k" by (cases t) (auto simp: isinstance_opt_def)
    obtain io t1 s1 where mi: "music_item E lang k s = (io, t1, s1)"
      by (cases "music_item E lang k s") auto
    have suf1: "suffix (pstream t1 s1) (pstream t s)"
      using music_item_pinv [OF mi] by (simp add: t)
    show ?thesis
    proof (cases io)
      case None
      then have "read_while E n lang t1 s1 = (its, r)"
        using Suc.prems True mi by (simp add: t)
      from Suc.IH [OF this] suf1 show ?thesis
        by (auto intro: run_inv_mono dest: suffix_order.trans)
    next
      case (Some i)
      obtain i' t2 s2 where wd: "wait_duration i t1 s1 = (i', t2, s2)"
        by (cases "wait_duration i t1 s1") auto
      obtain its' where rw: "read_while E n lang t2 s2 = (its', r)" and its: "its = i' # its'"
        using Suc.prems True mi Some wd by (auto simp: t split: prod.splits)
      have suf2: "suffix (pstream t2 s2) (pstream t s)"
        using wait_duration_pinv [OF wd] suf1 by (rule suffix_order.trans)
      have "kind i' \<in> {Note, Rest, Skip, Q}" and "token i' = Some k" and "tokens i' = []"
        using music_item_inv [OF mi] wait_duration_inv [OF wd] Some by auto
      then have "run_inv (pstream t s) i'"
        unfolding t by (rule run_inv_durable)
      with Suc.IH [OF rw] suf2 show ?thesis
        by (auto simp: its intro: run_inv_mono dest: suffix_order.trans)
    qed
  qed
qed

lemma dispatch_pinv:
  assumes "dispatch t s = (its, s')"
  shows "(\<forall>i \<in> set its. run_inv (pstream t s) i) \<and> suffix (pending s') (pstream t s)"
proof (cases t)
  case None
  with assms show ?thesis
    by (auto simp: dispatch_def isinstance_opt_def pstream_def)
next
  case (Some k)
  obtain toks d where s: "s = Source toks d" by (cases s)
  obtain ts sc where c: "consume s = (ts, sc)" by (cases "consume s") auto
  then have run: "ts = map fst (nested_run d toks)" and sufc: "suffix (pending sc) toks"
    using consume_loop_run [of d toks d ts sc] by (simp_all add: consume_def s)
  have ps: "pstream t s = [] @ (k, d) # toks"
    by (simp add: Some pstream_def s)
  have suf: "suffix (pending sc) (pstream t s)"
    using sufc by (simp add: Some pstream_def s suffix_ConsI)
  have suf0: "suffix (pending s) (pstream t s)"
    by (simp add: Some pstream_def suffix_def)
  have inv: "\<And>i. token i = Some k \<Longrightarrow>
      tokens i = (if consumes i k then map fst (nested_run d toks) else []) \<Longrightarrow>
      run_inv (pstream t s) i"
    unfolding run_inv_def using ps by blast
  show ?thesis
  proof (intro conjI ballI)
    show "suffix (pending s') (pstream t s)"
      using assms suf suf0 c
      by (auto simp: dispatch_def factory_def split: if_splits)
  next
    fix i assume "i \<in> set its"
    then have "token i = Some k \<and>
      tokens i = (if consumes i k then map fst (nested_run d toks) else [])"
      using assms c run
      by (auto simp: dispatch_def isinstance_opt_def Some factory_def new_item_def consumes_def
            split: if_splits)
    then show "run_inv (pstream t s) i"
      using inv by blast
  qed
qed

lemma read_pinv:
  "i \<in> set (fst (read E n (Reader (Source toks d) lang))) \<Longrightarrow> run_inv toks i"
proof (induction n arbitrary: toks d i)
  case 0
  then show ?case by (cases toks) auto
next
  case (Suc n)
  show ?case
  proof (cases toks)
    case Nil
    with Suc.prems show ?thesis by simp
  next
    case (Cons a rest)
    obtain k d' where a: "a = (k, d')" by (cases a)
    obtain its r where rw: "read_while E n lang (Some k) (Source rest d') = (its, r)"
      by (cases "read_while E n lang (Some k) (Source rest d')") auto
    have st: "pstream (Some k) (Source rest d') = toks"
      by (simp add: pstream_def Cons a)
    note w = read_while_pinv [OF rw, unfolded st]
    show ?thesis
    proof (cases r)
      case None
      with Suc.prems rw w show ?thesis by (auto simp: Cons a)
    next
      case (Some ts)
      obtain t' s where ts: "ts = (t', s)" by (cases ts)
      obtain its2 s2 where dp: "dispatch t' s = (its2, s2)" by (cases "dispatch t' s") auto
      obtain toks2 d2 where s2: "s2 = Source toks2 d2" by (cases s2)
      have suf1: "suffix (pstream t' s) toks"
        using w by (simp add: Some ts)
      note dv = dispatch_pinv [OF dp]
      have suf2: "suffix toks2 toks"
        using dv suf1 by (auto simp: s2 dest: suffix_order.trans)
      have "i \<in> set its \<or> i \<in> set its2 \<or> i \<in> set (fst (read E n (Reader (Source toks2 d2) lang)))"
        using Suc.prems rw dp by (auto simp: Cons a Some ts s2 split: prod.splits)
      then show ?thesis
        using w dv suf1 suf2 Suc.IH [of i toks2 d2]
        by (auto intro: run_inv_mono)
    qed
  qed
qed

lemma item_inv_kind:
  "item_inv E lang ts i \<Longrightarrow> kind i \<in> {Note, Rest, Skip, Q, SchemeValue, Comment, StringValue}"
  unfolding item_inv_def by (elim conjE)


subsection \<open>Enough fuel\<close>

text \<open>
  The fuel is only a device for the \<^verbatim>\<open>while\<close> loop: when no token of the source is an
  unresolved note, any fuel above the number of tokens lets \<^verbatim>\<open>read\<close> run to the end of
  the source.
\<close>

lemma stream_length: "length (pending s) \<le> length (stream t s)"
  by (simp add: stream_def)

lemma suffix_stream_pending:
  "suffix (stream t' s') (map fst (pending s)) \<Longrightarrow> length (pending s') \<le> length (pending s)"
  using suffix_length_le [of "stream t' s'" "map fst (pending s)"] stream_length [of s' t']
  by simp

lemma music_item_made:
  assumes "music_item E lang k s = (Some i, t', s')"
  shows "suffix (stream t' s') (map fst (pending s))"
proof -
  obtain toks d where s: "s = Source toks d" by (cases s)
  show ?thesis
  proof (cases "tclass k = Lex_Note")
    case False
    with assms show ?thesis
      by (auto simp: music_item_def stream_def split: if_splits)
  next
    case True
    with assms obtain n a where
      pl: "pitch_loop ((fst (factory Note k False s))\<lparr>pitch := Some (Pitch n a)\<rparr>) None
          (Source toks d) = (i, t', s')"
      by (auto simp: music_item_def s split: prod.splits option.splits)
    from pitch_loop_inv [OF pl] show ?thesis by (simp add: s stream_def)
  qed
qed

lemma music_item_resolved:
  "\<not> unresolved E lang k \<Longrightarrow> isinstance k Lex_MusicItem \<Longrightarrow>
   \<exists>i t' s'. music_item E lang k s = (Some i, t', s')"
  by (auto simp: music_item_def unresolved_def split: prod.splits option.splits)

lemma read_while_terminates:
  "\<forall>k \<in> set (stream t s). \<not> unresolved E lang k \<Longrightarrow> length (stream t s) \<le> n \<Longrightarrow>
   \<exists>its t' s'. read_while E n lang t s = (its, Some (t', s')) \<and>
      length (pending s') \<le> length (pending s)"
proof (induction n arbitrary: t s)
  case 0
  then have "t = None" by (cases t) (auto simp: stream_def)
  then show ?case by (simp add: isinstance_opt_def)
next
  case (Suc n)
  show ?case
  proof (cases "isinstance_opt t Lex_MusicItem")
    case False
    then show ?thesis by simp
  next
    case True
    then obtain k where t: "t = Some k" and km: "isinstance k Lex_MusicItem"
      by (cases t) (auto simp: isinstance_opt_def)
    have "\<not> unresolved E lang k" using Suc.prems(1) by (simp add: t stream_def)
    from music_item_resolved [OF this km] obtain i t1 s1
      where mi: "music_item E lang k s = (Some i, t1, s1)" by blast
    obtain i' t2 s2 where wd: "wait_duration i t1 s1 = (i', t2, s2)"
      by (cases "wait_duration i t1 s1") auto
    have suf1: "suffix (stream t1 s1) (map fst (pending s))"
      using mi by (rule music_item_made)
    have suf2: "suffix (stream t2 s2) (stream t1 s1)"
      using wait_duration_inv [OF wd] by simp
    have suf: "suffix (stream t2 s2) (map fst (pending s))"
      using suf2 suf1 by (rule suffix_order.trans)
    have len: "length (stream t2 s2) \<le> n"
      using suffix_length_le [OF suf] Suc.prems(2) by (simp add: t stream_def)
    have "set (stream t2 s2) \<subseteq> set (stream t s)"
      using set_mono_suffix [OF suf] by (auto simp: stream_def)
    with Suc.prems(1) have ok: "\<forall>k \<in> set (stream t2 s2). \<not> unresolved E lang k" by blast
    from Suc.IH [OF ok len] obtain its t' s' where
      rw: "read_while E n lang t2 s2 = (its, Some (t', s'))"
      and l: "length (pending s') \<le> length (pending s2)" by blast
    have "length (pending s2) \<le> length (pending s)"
      using suf by (rule suffix_stream_pending)
    with l rw show ?thesis
      using True mi wd by (simp add: t)
  qed
qed

lemma dispatch_pending:
  assumes "dispatch t s = (its, s')"
  shows "suffix (map fst (pending s')) (map fst (pending s))"
proof -
  obtain toks d where s: "s = Source toks d" by (cases s)
  obtain ts sc where c: "consume s = (ts, sc)" by (cases "consume s") auto
  then have split: "map fst toks = ts @ map fst (pending sc)"
    using consume_loop_split [of "depth s" toks d ts sc] by (simp add: consume_def s)
  have "suffix (map fst (pending sc)) (map fst (pending s))"
    by (simp add: s split suffix_def)
  with assms c show ?thesis
    by (auto simp: dispatch_def factory_def split: if_splits)
qed

lemma read_terminates:
  "\<forall>k \<in> set (map fst toks). \<not> unresolved E lang k \<Longrightarrow> length toks < n \<Longrightarrow>
   snd (read E n (Reader (Source toks d) lang)) = StopIteration"
proof (induction n arbitrary: toks d)
  case 0
  then show ?case by simp
next
  case (Suc n)
  show ?case
  proof (cases toks)
    case Nil
    then show ?thesis by simp
  next
    case (Cons a rest)
    obtain k d' where a: "a = (k, d')" by (cases a)
    have st: "stream (Some k) (Source rest d') = map fst toks"
      by (simp add: stream_def Cons a)
    have "length (stream (Some k) (Source rest d')) \<le> n"
      using Suc.prems(2) by (simp add: st)
    with read_while_terminates [of "Some k" "Source rest d'" E lang n] Suc.prems(1)
    obtain its t' s where rw: "read_while E n lang (Some k) (Source rest d') = (its, Some (t', s))"
      and l: "length (pending s) \<le> length rest"
      unfolding st by auto
    obtain its2 s2 where dp: "dispatch t' s = (its2, s2)" by (cases "dispatch t' s") auto
    obtain toks2 d2 where s2: "s2 = Source toks2 d2" by (cases s2)
    have suf1: "suffix (stream t' s) (map fst toks)"
      using read_while_inv [OF rw] by (simp add: st)
    have suf2: "suffix (map fst toks2) (map fst (pending s))"
      using dispatch_pending [OF dp] by (simp add: s2)
    have "suffix (map fst (pending s)) (stream t' s)"
      by (simp add: stream_def suffix_def)
    with suf2 suf1 have "suffix (map fst toks2) (map fst toks)"
      by (blast intro: suffix_order.trans)
    then have ok: "\<forall>k \<in> set (map fst toks2). \<not> unresolved E lang k"
      using Suc.prems(1) set_mono_suffix by blast
    have "length toks2 \<le> length (pending s)"
      using suffix_length_le [OF suf2] by simp
    with l Suc.prems(2) have "length toks2 < n" by (simp add: Cons)
    from Suc.IH [OF ok this, of d2] show ?thesis
      using rw dp by (auto simp add: Cons a s2 split: prod.splits)
  qed
qed

subsection \<open>Claims\<close>

text \<open>
  C3. For a language name that is not a key of the pitch table, \<^verbatim>\<open>set_language\<close> returns
  a failure value (it falls off its end: \<^verbatim>\<open>None\<close>) and leaves the reader as it was, so
  every note name resolves after the call as it did before. For a name that is a key,
  it sets the language and returns \<^verbatim>\<open>True\<close>.
\<close>

theorem C3_set_language:
  "(lang \<notin> pitchInfo E \<longrightarrow>
      set_language E r lang = (None, r) \<and>
      (\<forall>name. pitchReader E (language (snd (set_language E r lang))) name
               = pitchReader E (language r) name)) \<and>
   (lang \<in> pitchInfo E \<longrightarrow>
      set_language E r lang = (Some True, Reader (source r) lang) \<and>
      language (snd (set_language E r lang)) = lang)"
  by (simp add: set_language_def)

theorem C3_set_language_witness:
  "''deutsch'' \<notin> pitchInfo example_pitch \<and>
   set_language example_pitch (Reader_init (Source [] 0)) ''deutsch''
     = (None, Reader_init (Source [] 0)) \<and>
   pitchReader example_pitch
     (language (snd (set_language example_pitch (Reader_init (Source [] 0)) ''deutsch''))) ''cis''
     = Some (0, 1 / 2) \<and>
   ''english'' \<in> pitchInfo example_pitch \<and>
   set_language example_pitch (Reader_init (Source [] 0)) ''english''
     = (Some True, Reader (Source [] 0) ''english'')"
  using C3_set_language [of "''deutsch''" example_pitch "Reader_init (Source [] 0)"]
        C3_set_language [of "''english''" example_pitch "Reader_init (Source [] 0)"]
  by (simp add: example_pitch_def Reader_init_def)

text \<open>
  C4. \<^verbatim>\<open>consume\<close> yields the tokens of the source one by one and stops with the first
  token after which the reported depth is below the depth at entry: that token is the
  last one yielded, and the tokens after it stay in the source. So a Scheme-start token
  whose expression closes at the token \<open>l\<close> gives one SchemeValue whose tokens are the
  whole expression, closing delimiter included, and \<^verbatim>\<open>read\<close> goes on with the tokens
  after it.
\<close>

theorem C4_consume:
  assumes "\<forall>(t, d) \<in> set body. e \<le> d" and "dl < e"
  shows "consume (Source (body @ (l, dl) # rest) e) = (map fst body @ [l], Source rest dl) \<and>
     (isinstance k Lex_SchemeStart \<and> \<not> isinstance k Lex_MusicItem \<longrightarrow>
       read E (Suc n) (Reader (Source ((k, e) # body @ (l, dl) # rest) d0) lang) =
         ((new_item SchemeValue)\<lparr>token := Some k, tokens := map fst body @ [l]\<rparr>
            # fst (read E n (Reader (Source rest dl) lang)),
          snd (read E n (Reader (Source rest dl) lang))))"
  using assms
  by (simp add: consume_def consume_loop_stops read_while_not_music isinstance_opt_def
        dispatch_def factory_def split: prod.splits)

text \<open>The witness is the Scheme expression \<^verbatim>\<open>#(+ 1 (* 2 3))\<close> followed by a space and a name.\<close>

theorem C4_consume_witness:
  "consume (Source [(tk_scheme ''('', 3), (tk_scheme ''+'', 3), (tk_space '' '', 3), (tk_scheme ''1'', 3),
       (tk_space '' '', 3), (tk_scheme ''('', 4), (tk_scheme ''*'', 4), (tk_space '' '', 4),
       (tk_scheme ''2'', 4), (tk_space '' '', 4), (tk_scheme ''3'', 4), (tk_scheme '')'', 3),
       (tk_scheme '')'', 1), (tk_space '' '', 1), (tk_name ''rest'', 1)] 2)
     = ([tk_scheme ''('', tk_scheme ''+'', tk_space '' '', tk_scheme ''1'', tk_space '' '',
         tk_scheme ''('', tk_scheme ''*'', tk_space '' '', tk_scheme ''2'', tk_space '' '',
         tk_scheme ''3'', tk_scheme '')'', tk_scheme '')''],
        Source [(tk_space '' '', 1), (tk_name ''rest'', 1)] 1) \<and>
   read example_pitch (Suc 2) (Reader (Source [(tk_scheme_start ''#'', 2),
       (tk_scheme ''('', 3), (tk_scheme ''+'', 3), (tk_space '' '', 3), (tk_scheme ''1'', 3),
       (tk_space '' '', 3), (tk_scheme ''('', 4), (tk_scheme ''*'', 4), (tk_space '' '', 4),
       (tk_scheme ''2'', 4), (tk_space '' '', 4), (tk_scheme ''3'', 4), (tk_scheme '')'', 3),
       (tk_scheme '')'', 1), (tk_space '' '', 1), (tk_name ''rest'', 1)] 1) ''nederlands'')
     = ([(new_item SchemeValue)\<lparr>token := Some (tk_scheme_start ''#''),
           tokens := [tk_scheme ''('', tk_scheme ''+'', tk_space '' '', tk_scheme ''1'', tk_space '' '',
             tk_scheme ''('', tk_scheme ''*'', tk_space '' '', tk_scheme ''2'', tk_space '' '',
             tk_scheme ''3'', tk_scheme '')'', tk_scheme '')'']\<rparr>], StopIteration)"
  using C4_consume [of "[(tk_scheme ''('', 3), (tk_scheme ''+'', 3), (tk_space '' '', 3), (tk_scheme ''1'', 3),
       (tk_space '' '', 3), (tk_scheme ''('', 4), (tk_scheme ''*'', 4), (tk_space '' '', 4),
       (tk_scheme ''2'', 4), (tk_space '' '', 4), (tk_scheme ''3'', 4), (tk_scheme '')'', 3)]"
       2 1 "tk_scheme '')''" "[(tk_space '' '', 1), (tk_name ''rest'', 1)]" "tk_scheme_start ''#''"
       example_pitch 2 1 "''nederlands''"]
  apply (simp add: tok_defs isinstance_def)
  apply code_simp
  done

text \<open>
  C5. A note token that resolves, followed by an octave token of two raise marks and
  a duration token after which no further duration token is collected, yields a Note
  whose pitch has octave 2 and whose Duration holds exactly that duration token. (Any
  fuel of two or more is enough for this first item.)
\<close>

theorem C5_note_octave_duration:
  assumes "isinstance k Lex_MusicItem" and "tclass k = Lex_Note"
    and "pitchReader E lang (chars k) = Some (st, al)"
    and "isinstance ot Lex_Octave" and "chars ot = [CHR 0x27, CHR 0x27]"
    and "isinstance dt Lex_Duration" and "chars dt \<noteq> []"
    and "\<not> isinstance dt Lex_Octave" and "\<not> isinstance dt Lex_Accidental"
    and "\<not> isinstance dt Lex_OctaveCheck" and "\<not> isinstance dt Lex_Space"
    and "\<forall>(t, d) \<in> set (takeWhile (\<lambda>(t, d). isinstance t Lex_Duration \<or> isinstance t Lex_Space) rest).
           \<not> isinstance t Lex_Duration"
  shows "\<exists>its out.
     read E (Suc (Suc n)) (Reader (Source ((k, d1) # (ot, d2) # (dt, d3) # rest) d0) lang) =
       ((new_item Note)\<lparr>token := Some k, duration := Some [dt],
           pitch := Some ((Pitch st al)\<lparr>octave := 2\<rparr>), octave_token := Some ot\<rparr> # its, out)"
proof -
  have "fst (duration_loop [dt] (Some dt) (Source rest d3)) = [dt]"
    unfolding duration_loop_tokens using assms(12) by (auto simp: filter_empty_conv)
  then obtain t' s' where dl: "duration_loop [dt] (Some dt) (Source rest d3) = ([dt], t', s')"
    by (cases "duration_loop [dt] (Some dt) (Source rest d3)") auto
  have mi: "music_item E lang k (Source ((ot, d2) # (dt, d3) # rest) d1) =
     (Some ((new_item Note)\<lparr>token := Some k,
           pitch := Some ((Pitch st al)\<lparr>octave := 2\<rparr>), octave_token := Some ot\<rparr>),
      Some dt, Source rest d3)"
    using assms by (simp add: music_item_def factory_def upd_pitch_def octaveToNum_def)
  show ?thesis
    using assms(1,6,7) dl
    by (simp add: isinstance_opt_def mi wait_duration_def truthy_def split: prod.splits option.splits)
qed

theorem C5_note_octave_duration_witness:
  "read example_pitch 3 (Reader (Source [(tk_note ''c'', 1), (tk_octave [CHR 0x27, CHR 0x27], 1),
       (tk_length ''4'', 1), (tk_space '' '', 1), (tk_note ''d'', 1)] 1) ''nederlands'') =
     ([(new_item Note)\<lparr>token := Some (tk_note ''c''), duration := Some [tk_length ''4''],
           pitch := Some ((Pitch 0 0)\<lparr>octave := 2\<rparr>),
           octave_token := Some (tk_octave [CHR 0x27, CHR 0x27])\<rparr>,
       (new_item Note)\<lparr>token := Some (tk_note ''d''), duration := Some [],
           pitch := Some (Pitch 1 0)\<rparr>], StopIteration)"
proof -
  have ev: "read example_pitch 3 (Reader (Source [(tk_note ''c'', 1),
       (tk_octave [CHR 0x27, CHR 0x27], 1), (tk_length ''4'', 1), (tk_space '' '', 1),
       (tk_note ''d'', 1)] 1) ''nederlands'') =
     ([(new_item Note)\<lparr>token := Some (tk_note ''c''), duration := Some [tk_length ''4''],
           pitch := Some ((Pitch 0 0)\<lparr>octave := 2\<rparr>),
           octave_token := Some (tk_octave [CHR 0x27, CHR 0x27])\<rparr>,
       (new_item Note)\<lparr>token := Some (tk_note ''d''), duration := Some [],
           pitch := Some (Pitch 1 0)\<rparr>], StopIteration)"
    by code_simp
  have "\<exists>its out. read example_pitch (Suc (Suc 1)) (Reader (Source [(tk_note ''c'', 1),
       (tk_octave [CHR 0x27, CHR 0x27], 1), (tk_length ''4'', 1), (tk_space '' '', 1),
       (tk_note ''d'', 1)] 1) ''nederlands'') =
     ((new_item Note)\<lparr>token := Some (tk_note ''c''), duration := Some [tk_length ''4''],
           pitch := Some ((Pitch 0 0)\<lparr>octave := 2\<rparr>),
           octave_token := Some (tk_octave [CHR 0x27, CHR 0x27])\<rparr> # its, out)"
    using C5_note_octave_duration [of "tk_note ''c''" example_pitch "''nederlands''" 0 0
          "tk_octave [CHR 0x27, CHR 0x27]" "tk_length ''4''"
          "[(tk_space '' '', 1), (tk_note ''d'', 1)]" 1 1 1 1 1]
    by (simp add: tok_defs isinstance_def example_pitch_def)
  with ev show ?thesis by simp
qed


text \<open>
  C7, as the spec states it, fails: for a string left open at the end of the source,
  \<^verbatim>\<open>item.tokens[:-1]\<close> drops the last token of the string and not a closing quote, so
  the value of the run \<^verbatim>\<open>"ab\<close> is empty and not \<^verbatim>\<open>ab\<close>.
\<close>

theorem C7_open_string_counterexample:
  "read example_pitch 1 (Reader (Source [(tk_string_start [CHR 0x22], 2), (tk_string ''ab'', 2)] 1)
       ''nederlands'') =
     ([(new_item StringValue)\<lparr>token := Some (tk_string_start [CHR 0x22]),
          tokens := [tk_string ''ab''], value_s := Some []\<rparr>], StopIteration) \<and>
   concat (map unescape [tk_string ''ab'']) = ''ab''"
  by code_simp

text \<open>
  C7, amended. For a quoted string that is closed, that is, whose run of tokens \<open>body\<close>
  ends with the closing token \<open>q\<close> (the first token after which the depth is below the
  entry depth), \<^verbatim>\<open>read\<close> yields a StringValue whose value is the concatenation of
  \<open>unescape\<close> over the tokens of the body: a Character token that starts with a
  backslash loses exactly that one character, every other token is taken as it is.
\<close>

theorem C7_string_value:
  assumes "isinstance k Lex_StringStart" and "\<not> isinstance k Lex_MusicItem"
    and "\<not> isinstance k Lex_SchemeStart" and "\<not> isinstance k Lex_BlockCommentStart"
    and "\<not> isinstance k Lex_Comment"
    and "\<forall>(t, d) \<in> set body. e \<le> d" and "dl < e"
  shows "read E (Suc n) (Reader (Source ((k, e) # body @ (q, dl) # rest) d0) lang) =
       ((new_item StringValue)\<lparr>token := Some k, tokens := map fst body @ [q],
           value_s := Some (concat (map unescape (map fst body)))\<rparr>
          # fst (read E n (Reader (Source rest dl) lang)),
        snd (read E n (Reader (Source rest dl) lang))) \<and>
     (isinstance c Lex_Character \<longrightarrow> unescape (c\<lparr>chars := CHR 0x5C # s\<rparr>) = s) \<and>
     (\<not> (isinstance c' Lex_Character \<and> take 1 (chars c') = [CHR 0x5C]) \<longrightarrow>
        unescape c' = chars c')"
  using assms
  by (simp add: consume_def consume_loop_stops read_while_not_music isinstance_opt_def
        dispatch_def factory_def string_value_def unescape_def isinstance_def
        split: prod.splits)

theorem C7_string_value_witness:
  "read example_pitch 3 (Reader (Source [(tk_string_start [CHR 0x22], 2), (tk_string ''a'', 2),
       (tk_escape [CHR 0x5C, CHR 0x22], 2), (tk_string ''b'', 2), (tk_string_end [CHR 0x22], 1),
       (tk_rest ''r'', 1)] 1) ''nederlands'') =
     ([(new_item StringValue)\<lparr>token := Some (tk_string_start [CHR 0x22]),
          tokens := [tk_string ''a'', tk_escape [CHR 0x5C, CHR 0x22], tk_string ''b'',
                     tk_string_end [CHR 0x22]],
          value_s := Some [CHR ''a'', CHR 0x22, CHR ''b'']\<rparr>,
       (new_item Rest)\<lparr>token := Some (tk_rest ''r''), duration := Some []\<rparr>], StopIteration) \<and>
   unescape (tk_escape [CHR 0x5C, CHR 0x5C]) = [CHR 0x5C]"
proof -
  have ev: "read example_pitch 2 (Reader (Source [(tk_rest ''r'', 1)] 1) ''nederlands'') =
     ([(new_item Rest)\<lparr>token := Some (tk_rest ''r''), duration := Some []\<rparr>], StopIteration)"
    by code_simp
  have un: "concat (map unescape [tk_string ''a'', tk_escape [CHR 0x5C, CHR 0x22], tk_string ''b''])
      = [CHR ''a'', CHR 0x22, CHR ''b'']"
    by code_simp
  have inst: "read example_pitch (Suc 2) (Reader (Source ((tk_string_start [CHR 0x22], 2) #
        [(tk_string ''a'', 2), (tk_escape [CHR 0x5C, CHR 0x22], 2), (tk_string ''b'', 2)] @
        (tk_string_end [CHR 0x22], 1) # [(tk_rest ''r'', 1)]) 1) ''nederlands'') =
       ((new_item StringValue)\<lparr>token := Some (tk_string_start [CHR 0x22]),
           tokens := map fst [(tk_string ''a'', 2::nat), (tk_escape [CHR 0x5C, CHR 0x22], 2),
                       (tk_string ''b'', 2)] @ [tk_string_end [CHR 0x22]],
           value_s := Some (concat (map unescape (map fst
              [(tk_string ''a'', 2::nat), (tk_escape [CHR 0x5C, CHR 0x22], 2), (tk_string ''b'', 2)])))\<rparr>
          # fst (read example_pitch 2 (Reader (Source [(tk_rest ''r'', 1)] 1) ''nederlands'')),
        snd (read example_pitch 2 (Reader (Source [(tk_rest ''r'', 1)] 1) ''nederlands''))) \<and>
     unescape ((tk_escape [])\<lparr>chars := CHR 0x5C # [CHR 0x5C]\<rparr>) = [CHR 0x5C]"
    using C7_string_value [where k = "tk_string_start [CHR 0x22]"
          and body = "[(tk_string ''a'', 2), (tk_escape [CHR 0x5C, CHR 0x22], 2), (tk_string ''b'', 2)]"
          and e = 2 and dl = 1 and E = example_pitch and n = 2 and q = "tk_string_end [CHR 0x22]"
          and rest = "[(tk_rest ''r'', 1)]" and ?d0.0 = 1 and lang = "''nederlands''"
          and c = "tk_escape []" and s = "[CHR 0x5C]" and c' = "tk_string ''a''"]
    by (simp add: tok_defs isinstance_def del: read.simps)
  have "(tk_escape [])\<lparr>chars := CHR 0x5C # [CHR 0x5C]\<rparr> = tk_escape [CHR 0x5C, CHR 0x5C]"
    by (simp add: tok_defs)
  with inst ev un show ?thesis
    by (simp del: read.simps)
qed

text \<open>
  C1, as the spec states it, fails: for a Note token whose spelling does not resolve,
  one pass of the \<^verbatim>\<open>while\<close> loop makes no item and leaves the loop variable and the
  source as they were, and the token still is a MusicItem. The loop runs on with
  nothing changed: \<^verbatim>\<open>read\<close> yields no Token item and never reaches the tokens after
  the note.
\<close>

theorem C1_unresolved_note_counterexample:
  "isinstance_opt (Some (tk_note ''x'')) Lex_MusicItem \<and>
   music_item example_pitch ''nederlands'' (tk_note ''x'') (Source [(tk_rest ''r'', 1)] 1) =
     (None, Some (tk_note ''x''), Source [(tk_rest ''r'', 1)] 1) \<and>
   read example_pitch 1000 (Reader (Source [(tk_note ''x'', 1), (tk_rest ''r'', 1)] 1) ''nederlands'')
     = ([], OutOfFuel)"
  by code_simp

text \<open>
  C1, amended. For every token stream and every token whose spelling does not resolve
  in the reader's language, \<^verbatim>\<open>read\<close> yields no Note for that token, and it yields no
  Token item either: no item that \<^verbatim>\<open>read\<close> yields is of the class Token.
\<close>

theorem C1_unresolved_note_no_item:
  assumes "pitchReader E lang (chars k) = None"
  shows "\<forall>i \<in> set (fst (read E n (Reader s lang))).
     kind i \<noteq> Token \<and> \<not> (kind i = Note \<and> token i = Some k)"
proof
  fix i assume i: "i \<in> set (fst (read E n (Reader s lang)))"
  obtain toks d where s: "s = Source toks d" by (cases s)
  from i have inv: "item_inv E lang (map fst toks) i"
    unfolding s by (rule read_inv)
  from inv have "kind i \<noteq> Token"
    by (auto dest: item_inv_kind)
  moreover from inv assms have "\<not> (kind i = Note \<and> token i = Some k)"
    unfolding item_inv_def by auto
  ultimately show "kind i \<noteq> Token \<and> \<not> (kind i = Note \<and> token i = Some k)" ..
qed

theorem C1_unresolved_note_no_item_witness:
  "fst (read example_pitch 7 (Reader (Source [(tk_rest ''r'', 1), (tk_space '' '', 1),
       (tk_note ''c'', 1), (tk_space '' '', 1), (tk_note ''x'', 1), (tk_space '' '', 1),
       (tk_rest ''r'', 1)] 1) ''nederlands'')) =
     [(new_item Rest)\<lparr>token := Some (tk_rest ''r''), duration := Some []\<rparr>,
      (new_item Note)\<lparr>token := Some (tk_note ''c''), duration := Some [],
         pitch := Some (Pitch 0 0)\<rparr>] \<and>
   list_all (\<lambda>i. kind i \<noteq> Token \<and> \<not> (kind i = Note \<and> token i = Some (tk_note ''x'')))
     (fst (read example_pitch 7 (Reader (Source [(tk_rest ''r'', 1), (tk_space '' '', 1),
       (tk_note ''c'', 1), (tk_space '' '', 1), (tk_note ''x'', 1), (tk_space '' '', 1),
       (tk_rest ''r'', 1)] 1) ''nederlands'')))"
proof -
  have ev: "fst (read example_pitch 7 (Reader (Source [(tk_rest ''r'', 1), (tk_space '' '', 1),
       (tk_note ''c'', 1), (tk_space '' '', 1), (tk_note ''x'', 1), (tk_space '' '', 1),
       (tk_rest ''r'', 1)] 1) ''nederlands'')) =
     [(new_item Rest)\<lparr>token := Some (tk_rest ''r''), duration := Some []\<rparr>,
      (new_item Note)\<lparr>token := Some (tk_note ''c''), duration := Some [],
         pitch := Some (Pitch 0 0)\<rparr>]"
    by code_simp
  have hyp: "pitchReader example_pitch ''nederlands'' (chars (tk_note ''x'')) = None"
    by (simp add: example_pitch_def tok_defs)
  show ?thesis
    using C1_unresolved_note_no_item [OF hyp, of 7 "Source [(tk_rest ''r'', 1), (tk_space '' '', 1),
       (tk_note ''c'', 1), (tk_space '' '', 1), (tk_note ''x'', 1), (tk_space '' '', 1),
       (tk_rest ''r'', 1)] 1"]
    unfolding ev by (simp add: list_all_iff)
qed

text \<open>
  C2, as the spec states it, fails: when the source is exhausted inside a Scheme
  expression that never closes, \<^verbatim>\<open>read\<close> yields the SchemeValue and ends with the same
  outcome as for the expression that closes.
\<close>

theorem C2_unterminated_counterexample:
  "read example_pitch 4 (Reader (Source [(tk_scheme_start ''#'', 2), (tk_scheme ''('', 3),
       (tk_scheme ''x'', 3)] 1) ''nederlands'') =
     ([(new_item SchemeValue)\<lparr>token := Some (tk_scheme_start ''#''),
          tokens := [tk_scheme ''('', tk_scheme ''x'']\<rparr>], StopIteration) \<and>
   read example_pitch 4 (Reader (Source [(tk_scheme_start ''#'', 2), (tk_scheme ''('', 3),
       (tk_scheme ''x'', 3), (tk_scheme '')'', 1)] 1) ''nederlands'') =
     ([(new_item SchemeValue)\<lparr>token := Some (tk_scheme_start ''#''),
          tokens := [tk_scheme ''('', tk_scheme ''x'', tk_scheme '')'']\<rparr>], StopIteration)"
  by code_simp

text \<open>
  C2, amended. When the depth reported after every remaining token stays at or above
  the depth at entry, \<^verbatim>\<open>consume\<close> yields all the remaining tokens and stops at the
  exhausted source; \<^verbatim>\<open>read\<close> yields the SchemeValue or Comment that holds them and ends
  as every exhausted source ends, with \<open>StopIteration\<close>.
\<close>

theorem C2_exhausted_ends_normally:
  assumes "isinstance k Lex_SchemeStart \<or> isinstance k Lex_BlockCommentStart"
    and "\<not> isinstance k Lex_MusicItem"
    and "\<forall>(t, d) \<in> set rest. e \<le> d"
  shows "consume (Source rest e) = (map fst rest, Source [] (last (e # map snd rest))) \<and>
     read E (Suc n) (Reader (Source ((k, e) # rest) d0) lang) =
       ([(new_item (if isinstance k Lex_SchemeStart then SchemeValue else Comment))
            \<lparr>token := Some k, tokens := map fst rest\<rparr>], StopIteration)"
  using assms
  by (auto simp add: consume_def consume_loop_all read_while_not_music isinstance_opt_def
        dispatch_def factory_def split: prod.splits)

theorem C2_exhausted_ends_normally_witness:
  "consume (Source [(tk_scheme ''('', 3), (tk_scheme ''x'', 3)] 2) =
     ([tk_scheme ''('', tk_scheme ''x''], Source [] 3) \<and>
   read example_pitch (Suc 0) (Reader (Source [(tk_scheme_start ''#'', 2), (tk_scheme ''('', 3),
       (tk_scheme ''x'', 3)] 1) ''nederlands'') =
     ([(new_item SchemeValue)\<lparr>token := Some (tk_scheme_start ''#''),
          tokens := [tk_scheme ''('', tk_scheme ''x'']\<rparr>], StopIteration)"
  using C2_exhausted_ends_normally [of "tk_scheme_start ''#''"
      "[(tk_scheme ''('', 3), (tk_scheme ''x'', 3)]" 2 example_pitch 0 1 "''nederlands''"]
  by (simp add: tok_defs isinstance_def del: read.simps)

text \<open>
  C6. What the code does for a note, an octave check and a length (\<^verbatim>\<open>c='4\<close>), where the
  claim has the length in the Duration of the Note: the loop over the pitch breaks at the
  octave-check token and leaves it in the loop variable, a true value that is no
  Duration, so the Duration of the Note stays empty; the length token is pulled by
  the outer loop afterwards and makes no item.
\<close>

theorem C6_octavecheck_drops_duration:
  "read example_pitch 3 (Reader (Source [(tk_note ''c'', 1),
       (tk_octavecheck [CHR ''='', CHR 0x27], 1), (tk_length ''4'', 1)] 1) ''nederlands'') =
     ([(new_item Note)\<lparr>token := Some (tk_note ''c''), duration := Some [],
          pitch := Some ((Pitch 0 0)\<lparr>octavecheck := Some 1\<rparr>),
          octavecheck_token := Some (tk_octavecheck [CHR ''='', CHR 0x27])\<rparr>], StopIteration)"
  by code_simp

text \<open>
  C8, as the spec states it, fails: for the source \<^verbatim>\<open>r4\<close>, which has no whitespace, the
  Rest item covers both tokens and its \<^verbatim>\<open>tokens\<close> sequence is empty; for the source
  \<^verbatim>\<open>#x\<close> the \<^verbatim>\<open>tokens\<close> sequence of the SchemeValue is \<^verbatim>\<open>x\<close>, without the token \<^verbatim>\<open>#\<close>.
\<close>

theorem C8_tokens_counterexample:
  "read example_pitch 3 (Reader (Source [(tk_rest ''r'', 1), (tk_length ''4'', 1)] 1) ''nederlands'') =
     ([(new_item Rest)\<lparr>token := Some (tk_rest ''r''), duration := Some [tk_length ''4'']\<rparr>],
      StopIteration) \<and>
   tokens ((new_item Rest)\<lparr>token := Some (tk_rest ''r''), duration := Some [tk_length ''4'']\<rparr>) = [] \<and>
   concat (map chars (tokens ((new_item Rest)\<lparr>token := Some (tk_rest ''r''),
      duration := Some [tk_length ''4'']\<rparr>))) \<noteq> ''r4'' \<and>
   read example_pitch 3 (Reader (Source [(tk_scheme_start ''#'', 2), (tk_scheme ''x'', 1)] 1)
       ''nederlands'') =
     ([(new_item SchemeValue)\<lparr>token := Some (tk_scheme_start ''#''),
          tokens := [tk_scheme ''x'']\<rparr>], StopIteration) \<and>
   concat (map chars [tk_scheme ''x'']) \<noteq> ''#x''"
  by code_simp

text \<open>
  C8, amended. Every item yielded by \<^verbatim>\<open>read\<close> has a defining \<^verbatim>\<open>token\<close> that is a token
  of the source. For a SchemeValue, a StringValue and a block Comment the \<^verbatim>\<open>tokens\<close>
  sequence is exactly the run of the source's tokens that follows the defining token,
  up to and including the first token after which the depth is below the depth
  reported after the defining token, or up to the end of the source: the defining
  token followed by \<^verbatim>\<open>tokens\<close> is that span of the source, with every whitespace and
  comment token of it. For a Note, Rest, Skip, Q and a line Comment the \<^verbatim>\<open>tokens\<close>
  sequence is empty.
\<close>

theorem C8_token_run:
  "\<forall>i \<in> set (fst (read E n (Reader (Source toks d) lang))).
     \<exists>k e pre rest. token i = Some k \<and> toks = pre @ (k, e) # rest \<and>
       tokens i =
         (if kind i \<in> {SchemeValue, StringValue} \<or>
             (kind i = Comment \<and> isinstance k Lex_BlockCommentStart)
          then map fst (nested_run e rest) else [])"
proof
  fix i assume "i \<in> set (fst (read E n (Reader (Source toks d) lang)))"
  then have "run_inv toks i" by (rule read_pinv)
  then show "\<exists>k e pre rest. token i = Some k \<and> toks = pre @ (k, e) # rest \<and>
       tokens i =
         (if kind i \<in> {SchemeValue, StringValue} \<or>
             (kind i = Comment \<and> isinstance k Lex_BlockCommentStart)
          then map fst (nested_run e rest) else [])"
    unfolding run_inv_def consumes_def .
qed

theorem C8_token_run_witness:
  "fst (read example_pitch 4 (Reader (Source [(tk_rest ''r'', 1), (tk_space '' '', 1),
       (tk_block_comment_start ''%{'', 2), (tk_block_comment_space '' '', 2),
       (tk_block_comment ''a'', 2), (tk_block_comment_end ''%}'', 1),
       (tk_space '' '', 1), (tk_line_comment ''% x'', 1)] 1) ''nederlands'')) =
     [(new_item Rest)\<lparr>token := Some (tk_rest ''r''), duration := Some []\<rparr>,
      (new_item Comment)\<lparr>token := Some (tk_block_comment_start ''%{''),
         tokens := [tk_block_comment_space '' '', tk_block_comment ''a'',
                    tk_block_comment_end ''%}'']\<rparr>,
      (new_item Comment)\<lparr>token := Some (tk_line_comment ''% x'')\<rparr>] \<and>
   list_all (\<lambda>i. \<exists>k e pre rest. token i = Some k \<and> [(tk_rest ''r'', 1), (tk_space '' '', 1),
       (tk_block_comment_start ''%{'', 2), (tk_block_comment_space '' '', 2),
       (tk_block_comment ''a'', 2), (tk_block_comment_end ''%}'', 1),
       (tk_space '' '', 1), (tk_line_comment ''% x'', 1)] = pre @ (k, e) # rest \<and>
       tokens i =
         (if kind i \<in> {SchemeValue, StringValue} \<or>
             (kind i = Comment \<and> isinstance k Lex_BlockCommentStart)
          then map fst (nested_run e rest) else []))
     (fst (read example_pitch 4 (Reader (Source [(tk_rest ''r'', 1), (tk_space '' '', 1),
       (tk_block_comment_start ''%{'', 2), (tk_block_comment_space '' '', 2),
       (tk_block_comment ''a'', 2), (tk_block_comment_end ''%}'', 1),
       (tk_space '' '', 1), (tk_line_comment ''% x'', 1)] 1) ''nederlands'')))"
proof -
  have ev: "fst (read example_pitch 4 (Reader (Source [(tk_rest ''r'', 1), (tk_space '' '', 1),
       (tk_block_comment_start ''%{'', 2), (tk_block_comment_space '' '', 2),
       (tk_block_comment ''a'', 2), (tk_block_comment_end ''%}'', 1),
       (tk_space '' '', 1), (tk_line_comment ''% x'', 1)] 1) ''nederlands'')) =
     [(new_item Rest)\<lparr>token := Some (tk_rest ''r''), duration := Some []\<rparr>,
      (new_item Comment)\<lparr>token := Some (tk_block_comment_start ''%{''),
         tokens := [tk_block_comment_space '' '', tk_block_comment ''a'',
                    tk_block_comment_end ''%}'']\<rparr>,
      (new_item Comment)\<lparr>token := Some (tk_line_comment ''% x'')\<rparr>]"
    by code_simp
  have "\<forall>i \<in> set (fst (read example_pitch 4 (Reader (Source [(tk_rest ''r'', 1), (tk_space '' '', 1),
       (tk_block_comment_start ''%{'', 2), (tk_block_comment_space '' '', 2),
       (tk_block_comment ''a'', 2), (tk_block_comment_end ''%}'', 1),
       (tk_space '' '', 1), (tk_line_comment ''% x'', 1)] 1) ''nederlands''))).
     \<exists>k e pre rest. token i = Some k \<and> [(tk_rest ''r'', 1), (tk_space '' '', 1),
       (tk_block_comment_start ''%{'', 2), (tk_block_comment_space '' '', 2),
       (tk_block_comment ''a'', 2), (tk_block_comment_end ''%}'', 1),
       (tk_space '' '', 1), (tk_line_comment ''% x'', 1)] = pre @ (k, e) # rest \<and>
       tokens i =
         (if kind i \<in> {SchemeValue, StringValue} \<or>
             (kind i = Comment \<and> isinstance k Lex_BlockCommentStart)
          then map fst (nested_run e rest) else [])"
    by (rule C8_token_run)
  with ev show ?thesis
    by (simp only: list_all_iff simp_thms)
qed



text \<open>
  C10. Every item yielded by \<^verbatim>\<open>read\<close>, for any source and after any number of steps,
  is a Note, Rest, Skip, Q, SchemeValue, Comment or StringValue; none is of the
  classes Token, Chord, Music, Container or Duration.
\<close>

theorem C10_item_kinds:
  "\<forall>i \<in> set (fst (read E n r)).
     kind i \<in> {Note, Rest, Skip, Q, SchemeValue, Comment, StringValue} \<and>
     kind i \<notin> {Token, Chord, Music, Container, Duration}"
proof
  fix i assume i: "i \<in> set (fst (read E n r))"
  obtain s lang where r: "r = Reader s lang" by (cases r)
  obtain toks d where s: "s = Source toks d" by (cases s)
  from i have "item_inv E lang (map fst toks) i"
    unfolding r s by (rule read_inv)
  then have k: "kind i \<in> {Note, Rest, Skip, Q, SchemeValue, Comment, StringValue}"
    by (rule item_inv_kind)
  then have "kind i \<notin> {Token, Chord, Music, Container, Duration}"
    by auto
  with k show "kind i \<in> {Note, Rest, Skip, Q, SchemeValue, Comment, StringValue} \<and>
     kind i \<notin> {Token, Chord, Music, Container, Duration}" ..
qed

theorem C10_item_kinds_witness:
  "map kind (fst (read example_pitch 9 (Reader (Source
      [(tk_note ''c'', 1), (tk_length ''4'', 1), (tk_space '' '', 1), (tk_rest ''r'', 1),
       (tk_space '' '', 1), (tk_name ''foo'', 1), (tk_line_comment ''% x'', 1),
       (tk_scheme_start ''#'', 2), (tk_scheme ''t'', 1),
       (tk_string_start [CHR 0x22], 2), (tk_string ''a'', 2), (tk_string_end [CHR 0x22], 1)] 1)
      ''nederlands''))) = [Note, Rest, Comment, SchemeValue, StringValue] \<and>
   list_all (\<lambda>i. kind i \<in> {Note, Rest, Skip, Q, SchemeValue, Comment, StringValue} \<and>
                 kind i \<notin> {Token, Chord, Music, Container, Duration})
     (fst (read example_pitch 9 (Reader (Source
      [(tk_note ''c'', 1), (tk_length ''4'', 1), (tk_space '' '', 1), (tk_rest ''r'', 1),
       (tk_space '' '', 1), (tk_name ''foo'', 1), (tk_line_comment ''% x'', 1),
       (tk_scheme_start ''#'', 2), (tk_scheme ''t'', 1),
       (tk_string_start [CHR 0x22], 2), (tk_string ''a'', 2), (tk_string_end [CHR 0x22], 1)] 1)
      ''nederlands'')))"
proof -
  have "map kind (fst (read example_pitch 9 (Reader (Source
      [(tk_note ''c'', 1), (tk_length ''4'', 1), (tk_space '' '', 1), (tk_rest ''r'', 1),
       (tk_space '' '', 1), (tk_name ''foo'', 1), (tk_line_comment ''% x'', 1),
       (tk_scheme_start ''#'', 2), (tk_scheme ''t'', 1),
       (tk_string_start [CHR 0x22], 2), (tk_string ''a'', 2), (tk_string_end [CHR 0x22], 1)] 1)
      ''nederlands''))) = [Note, Rest, Comment, SchemeValue, StringValue]"
    by code_simp
  then show ?thesis
    using C10_item_kinds [of example_pitch 9 "Reader (Source
      [(tk_note ''c'', 1), (tk_length ''4'', 1), (tk_space '' '', 1), (tk_rest ''r'', 1),
       (tk_space '' '', 1), (tk_name ''foo'', 1), (tk_line_comment ''% x'', 1),
       (tk_scheme_start ''#'', 2), (tk_scheme ''t'', 1),
       (tk_string_start [CHR 0x22], 2), (tk_string ''a'', 2), (tk_string_end [CHR 0x22], 1)] 1)
      ''nederlands''"]
    by (simp add: list_all_iff del: read.simps)
qed

end
